theory Spec2Isabelle
  imports Main "HOL-Library.Sublist" "HOL-Library.While_Combinator"
begin

section \<open>The multipart decoder of \<open>multipart.js\<close>\<close>

text \<open>
  A Node \<open>Buffer\<close> is a list of bytes; \<open>char\<close> is the 8-bit byte. A JavaScript
  string is the list of its UTF-16 code units, each a number from 0 to 65535, and its
  \<open>length\<close> is the number of code units. \<open>units\<close> writes the string whose characters
  are the given ASCII characters. Numbers are \<open>int\<close>: the offsets of the source can
  be \<open>-1\<close>.
\<close>

type_synonym buffer = "char list"

type_synonym jsstring = "int list"

definition units :: "string \<Rightarrow> jsstring" where
  "units s = map of_char s"


subsection \<open>Constants\<close>

definition CRLF :: buffer where
  "CRLF = [CHR 0x0D, CHR 0x0A]"

definition DOUBLE_CRLF :: buffer where
  "DOUBLE_CRLF = [CHR 0x0D, CHR 0x0A, CHR 0x0D, CHR 0x0A]"

subsection \<open>The library functions of \<open>Buffer\<close> the decoder calls\<close>

text \<open>
  \<open>indexOf_from xs v i\<close> scans \<open>xs\<close>, whose first byte has index \<open>i\<close>, for the first
  position where \<open>v\<close> starts; \<open>-1\<close> when there is none.
\<close>

fun indexOf_from :: "'a list \<Rightarrow> 'a list \<Rightarrow> nat \<Rightarrow> int" where
  "indexOf_from [] v i = (if v = [] then int i else - 1)"
| "indexOf_from (x # xs) v i =
     (if prefix v (x # xs) then int i else indexOf_from xs v (Suc i))"

text \<open>
  \<open>buf.indexOf(value, byteOffset)\<close>: a negative offset counts from the end of the
  buffer (and not before its start); an empty \<open>value\<close> is found at the offset, or at
  the length of the buffer when the offset is beyond it; a non-empty \<open>value\<close> is not
  found from an offset beyond the end.
\<close>

definition indexOf :: "buffer \<Rightarrow> buffer \<Rightarrow> int \<Rightarrow> int" where
  "indexOf buf v byteOffset =
     (let len = int (length buf);
          off = (if byteOffset < 0 then max 0 (len + byteOffset) else byteOffset)
      in if len < off then (if v = [] then len else - 1)
         else indexOf_from (drop (nat off) buf) v (nat off))"

text \<open>
  \<open>buf.slice(start, end)\<close>: each index is clamped to \<open>[0, length]\<close> after a negative
  one has been counted from the end; the result is empty when the end is not after
  the start.
\<close>

definition adjustOffset :: "int \<Rightarrow> int \<Rightarrow> int" where
  "adjustOffset offset len =
     (if offset < 0 then (if offset + len > 0 then offset + len else 0)
      else if offset < len then offset else len)"

definition slice :: "buffer \<Rightarrow> int \<Rightarrow> int \<Rightarrow> buffer" where
  "slice buf start end =
     (let s = adjustOffset start (int (length buf));
          e = adjustOffset end (int (length buf))
      in if e > s then take (nat (e - s)) (drop (nat s) buf) else [])"

text \<open>
  \<open>buf.toString()\<close> decodes the bytes as UTF-8. \<open>utf8_decode st bs\<close> is the decoder
  in the state \<open>st\<close>: \<open>None\<close> between characters, and \<open>Some (n, lo, hi, cp)\<close> inside a
  sequence that needs \<open>n\<close> more bytes, the next one between \<open>lo\<close> and \<open>hi\<close>, with the
  bits \<open>cp\<close> read so far. A byte that cannot start or continue a sequence gives the
  replacement character \<open>U+FFFD\<close>, and a byte that cannot continue one is read again
  as the start of the next; a sequence cut by the end of the buffer gives one
  replacement character. A code point above \<open>U+FFFF\<close> is two code units.
\<close>

definition code_units :: "int \<Rightarrow> jsstring" where
  "code_units cp =
     (if cp < 0x10000 then [cp]
      else [0xD800 + (cp - 0x10000) div 1024, 0xDC00 + (cp - 0x10000) mod 1024])"

fun utf8_decode :: "(nat \<times> int \<times> int \<times> int) option \<Rightarrow> int list \<Rightarrow> jsstring" where
  "utf8_decode None [] = []"
| "utf8_decode (Some st) [] = [0xFFFD]"
| "utf8_decode None (b # bs) =
     (if b < 0x80 then b # utf8_decode None bs
      else if 0xC2 \<le> b \<and> b \<le> 0xDF then utf8_decode (Some (1, 0x80, 0xBF, b - 0xC0)) bs
      else if b = 0xE0 then utf8_decode (Some (2, 0xA0, 0xBF, 0)) bs
      else if b = 0xED then utf8_decode (Some (2, 0x80, 0x9F, 0xD)) bs
      else if 0xE1 \<le> b \<and> b \<le> 0xEF then utf8_decode (Some (2, 0x80, 0xBF, b - 0xE0)) bs
      else if b = 0xF0 then utf8_decode (Some (3, 0x90, 0xBF, 0)) bs
      else if b = 0xF4 then utf8_decode (Some (3, 0x80, 0x8F, 4)) bs
      else if 0xF1 \<le> b \<and> b \<le> 0xF3 then utf8_decode (Some (3, 0x80, 0xBF, b - 0xF0)) bs
      else 0xFFFD # utf8_decode None bs)"
| "utf8_decode (Some (n, lo, hi, cp)) (b # bs) =
     (if lo \<le> b \<and> b \<le> hi
      then (if n \<le> 1 then code_units (cp * 64 + (b - 0x80)) @ utf8_decode None bs
            else utf8_decode (Some (n - 1, 0x80, 0xBF, cp * 64 + (b - 0x80))) bs)
      else 0xFFFD # utf8_decode None (b # bs))"

definition toString :: "buffer \<Rightarrow> jsstring" where
  "toString buf = utf8_decode None (map of_char buf)"

text \<open>
  A string given to \<open>buf.indexOf\<close> is searched as its UTF-8 bytes: one byte for an
  ASCII character, two to four for another one, a pair of surrogates being one code
  point, and the bytes of \<open>U+FFFD\<close> for a surrogate alone.
\<close>

definition encode_cp :: "int \<Rightarrow> buffer" where
  "encode_cp cp =
     (if cp < 0x80 then [char_of cp]
      else if cp < 0x800 then [char_of (0xC0 + cp div 64), char_of (0x80 + cp mod 64)]
      else if cp < 0x10000
      then [char_of (0xE0 + cp div 4096), char_of (0x80 + cp div 64 mod 64),
            char_of (0x80 + cp mod 64)]
      else [char_of (0xF0 + cp div 262144), char_of (0x80 + cp div 4096 mod 64),
            char_of (0x80 + cp div 64 mod 64), char_of (0x80 + cp mod 64)])"

fun utf8Write :: "jsstring \<Rightarrow> buffer" where
  "utf8Write [] = []"
| "utf8Write [u] =
     (if 0xD800 \<le> u \<and> u < 0xE000 then encode_cp 0xFFFD else encode_cp u)"
| "utf8Write (u # v # vs) =
     (if 0xD800 \<le> u \<and> u < 0xDC00 \<and> 0xDC00 \<le> v \<and> v < 0xE000
      then encode_cp (0x10000 + (u - 0xD800) * 1024 + (v - 0xDC00)) @ utf8Write vs
      else if 0xD800 \<le> u \<and> u < 0xE000 then encode_cp 0xFFFD @ utf8Write (v # vs)
      else encode_cp u @ utf8Write (v # vs))"


subsection \<open>\<open>splitContentParts\<close>\<close>

lemma indexOf_from_bounds:
  "indexOf_from xs v i = - 1 \<or>
   (int i \<le> indexOf_from xs v i \<and> indexOf_from xs v i + int (length v) \<le> int (i + length xs))"
proof (induction xs arbitrary: i)
  case Nil
  show ?case by simp
next
  case (Cons x xs)
  show ?case
  proof (cases "prefix v (x # xs)")
    case True
    then have "length v \<le> length (x # xs)" by (rule prefix_length_le)
    with True show ?thesis by simp
  next
    case False
    with Cons.IH [of "Suc i"] show ?thesis by auto
  qed
qed

lemma indexOf_bounds:
  assumes "0 \<le> off"
  shows "indexOf buf v off = - 1 \<or> (v = [] \<and> indexOf buf v off \<le> off) \<or>
         (off \<le> indexOf buf v off \<and> indexOf buf v off + int (length v) \<le> int (length buf))"
proof (cases "int (length buf) < off")
  case True
  with assms show ?thesis by (simp add: indexOf_def)
next
  case False
  with assms have eq: "indexOf buf v off = indexOf_from (drop (nat off) buf) v (nat off)"
    by (simp add: indexOf_def)
  from False assms have len: "nat off + length (drop (nat off) buf) = length buf" by simp
  from indexOf_from_bounds [of "drop (nat off) buf" v "nat off"] assms show ?thesis
    unfolding eq len by auto
qed

text \<open>
  The \<open>while\<close> loop of \<open>splitContentParts\<close>, on its two variables: it pushes the bytes
  from \<open>start\<close> to \<open>end\<close> while \<open>end > start\<close>.
\<close>

function split_loop :: "buffer \<Rightarrow> jsstring \<Rightarrow> int \<Rightarrow> int \<Rightarrow> buffer list" where
  "split_loop buffer boundary start end =
     (if end > start
      then slice buffer start end #
           split_loop buffer boundary (end + int (length boundary))
             (indexOf buffer (utf8Write boundary) (end + int (length boundary)))
      else [])"
  by pat_completeness auto
termination
proof (relation "measure (\<lambda>(buffer, boundary, start, end).
         if end > start then 1 + nat (int (length buffer) - start) else 0)")
  show "wf (measure (\<lambda>(buffer :: buffer, boundary :: jsstring, start, end).
         if end > start then 1 + nat (int (length buffer) - start) else 0))"
    by simp
next
  fix buffer :: buffer and boundary :: jsstring and start "end" :: int
  assume gt: "start < end"
  define s' where "s' = end + int (length boundary)"
  define e' where "e' = indexOf buffer (utf8Write boundary) s'"
  have "e' > s' \<Longrightarrow> nat (int (length buffer) - s') < nat (int (length buffer) - start)"
  proof -
    assume step: "e' > s'"
    show ?thesis
    proof (cases "0 \<le> s'")
      case True
      from indexOf_bounds [OF True, of buffer "utf8Write boundary"] step
      have "s' < int (length buffer)" by (auto simp: e'_def)
      with gt show ?thesis by (simp add: s'_def)
    next
      case False
      with gt show ?thesis by (simp add: s'_def)
    qed
  qed
  then show "((buffer, boundary, end + int (length boundary),
               indexOf buffer (utf8Write boundary) (end + int (length boundary))),
              (buffer, boundary, start, end))
             \<in> measure (\<lambda>(buffer, boundary, start, end).
                  if end > start then 1 + nat (int (length buffer) - start) else 0)"
    using gt by (simp add: s'_def e'_def)
qed

declare split_loop.simps [simp del]

text \<open>
  \<open>splitContentParts(buffer, boundary)\<close>: the first \<open>start\<close> is the index of
  \<open>'--' + boundary\<close> plus \<open>boundary.length + 2\<close>, whether the index is \<open>-1\<close> or not;
  each \<open>end\<close> is the index of the bare \<open>boundary\<close> from \<open>start\<close> on. The indexes are
  those of the UTF-8 bytes of the strings, and \<open>boundary.length\<close> is a number of code
  units: the two agree for an ASCII token only.
\<close>

definition splitContentParts :: "buffer \<Rightarrow> jsstring \<Rightarrow> buffer list" where
  "splitContentParts buffer boundary =
     (let start = indexOf buffer (utf8Write (units ''--'' @ boundary)) 0 + int (length boundary) + 2;
          end = indexOf buffer (utf8Write boundary) start
      in split_loop buffer boundary start end)"

text \<open>
  The same loop as the source writes it, a \<open>while\<close> on the state
  \<open>(parts, start, end)\<close> that may or may not come to an end: \<open>None\<close> is a loop that
  runs forever.
\<close>

definition splitContentParts_while :: "buffer \<Rightarrow> jsstring \<Rightarrow> (buffer list \<times> int \<times> int) option" where
  "splitContentParts_while buffer boundary =
     (let start = indexOf buffer (utf8Write (units ''--'' @ boundary)) 0 + int (length boundary) + 2;
          end = indexOf buffer (utf8Write boundary) start
      in while_option (\<lambda>(parts, start, end). end > start)
           (\<lambda>(parts, start, end).
              (parts @ [slice buffer start end],
               end + int (length boundary),
               indexOf buffer (utf8Write boundary) (end + int (length boundary))))
           ([], start, end))"

subsection \<open>The string functions the decoder calls\<close>

text \<open>
  \<open>s.split(sep)\<close> with a string separator: the pieces of \<open>s\<close> between the
  occurrences of \<open>sep\<close>, found from left to right without overlap; the characters of
  \<open>s\<close> when \<open>sep\<close> is empty. The result of splitting on a non-empty separator is
  never empty: the empty string gives one empty piece. An occurrence is found by the
  scan of \<open>indexOf_from\<close>, on code units here.
\<close>

function split_str :: "'a list \<Rightarrow> 'a list \<Rightarrow> 'a list list" where
  "split_str s sep =
     (if sep = [] then map (\<lambda>c. [c]) s
      else if indexOf_from s sep 0 < 0 then [s]
      else take (nat (indexOf_from s sep 0)) s #
           split_str (drop (nat (indexOf_from s sep 0) + length sep) s) sep)"
  by pat_completeness auto
termination
proof (relation "measure (\<lambda>(s, sep). length s)")
  show "wf (measure (\<lambda>(s :: 'a list, sep :: 'a list). length s))" by simp
next
  fix s sep :: "'a list"
  assume sep: "sep \<noteq> []" and found: "\<not> indexOf_from s sep 0 < 0"
  from indexOf_from_bounds [of s sep 0] found
  have "indexOf_from s sep 0 + int (length sep) \<le> int (length s)" by auto
  with sep found
  show "((drop (nat (indexOf_from s sep 0) + length sep) s, sep), (s, sep))
        \<in> measure (\<lambda>(s, sep). length s)"
    by (cases sep) auto
qed

declare split_str.simps [simp del]

text \<open>
  \<open>s.toLowerCase()\<close>: the letters \<open>A\<close> to \<open>Z\<close> become \<open>a\<close> to \<open>z\<close>. The other
  ASCII characters stay, and so do, here, the characters beyond ASCII: what they
  become in JavaScript is not one of the two keys the decoder reads,
  \<open>content-disposition\<close> and \<open>content-type\<close>, nor a part of one.
\<close>

definition lower_unit :: "int \<Rightarrow> int" where
  "lower_unit u = (if 65 \<le> u \<and> u \<le> 90 then u + 32 else u)"

definition toLowerCase :: "jsstring \<Rightarrow> jsstring" where
  "toLowerCase s = map lower_unit s"

text \<open>\<open>xs[i]\<close> of an array: \<open>undefined\<close>, here \<open>None\<close>, beyond its length.\<close>

definition nth_opt :: "'a list \<Rightarrow> nat \<Rightarrow> 'a option" where
  "nth_opt xs i = (if i < length xs then Some (xs ! i) else None)"

text \<open>
  \<open>/name="([^;"]+)"/.exec(s)\<close> and \<open>/filename="([^;"]+)"/.exec(s)\<close>: \<open>exec_attr lit s\<close>
  is the first group of the leftmost match of the literal \<open>lit\<close>, a non-empty run
  of characters other than \<open>;\<close> and \<open>"\<close>, and a closing \<open>"\<close>; \<open>None\<close> is \<open>null\<close>.
  The run is the longest one: a shorter run is followed by a character of the
  run, not by the closing quote.
\<close>

definition attr_char :: "int \<Rightarrow> bool" where
  "attr_char c \<longleftrightarrow> c \<noteq> 0x3B \<and> c \<noteq> 0x22"

fun exec_attr :: "jsstring \<Rightarrow> jsstring \<Rightarrow> jsstring option" where
  "exec_attr lit [] = None"
| "exec_attr lit (c # cs) =
     (if prefix lit (c # cs) \<and>
         takeWhile attr_char (drop (length lit) (c # cs)) \<noteq> [] \<and>
         take 1 (dropWhile attr_char (drop (length lit) (c # cs))) = [0x22]
      then Some (takeWhile attr_char (drop (length lit) (c # cs)))
      else exec_attr lit cs)"

definition name_lit :: jsstring where
  "name_lit = units ''name='' @ [0x22]"

definition filename_lit :: jsstring where
  "filename_lit = units ''filename='' @ [0x22]"

text \<open>
  \<open>exec\<close> turns its argument into a string: \<open>undefined\<close> is the text
  \<open>undefined\<close>.
\<close>

definition exec_arg :: "jsstring option \<Rightarrow> jsstring" where
  "exec_arg v = (case v of None \<Rightarrow> units ''undefined'' | Some s \<Rightarrow> s)"

subsection \<open>\<open>parseContent\<close>\<close>

text \<open>
  The value of a part: the text of a field, or the object of a file.
\<close>

datatype form_value =
  Field jsstring
| File (filename: jsstring) (contentType: jsstring) (data: buffer)

text \<open>
  Lines 143 to 145: the index of the first CR LF CR LF, the head in front of it and
  the body from four bytes after it to four bytes before the end of the buffer.
  The index is \<open>-1\<close> when there is no CR LF CR LF, and the slices are taken all the
  same.
\<close>

definition part_head :: "buffer \<Rightarrow> jsstring" where
  "part_head buffer = toString (slice buffer 0 (indexOf buffer DOUBLE_CRLF 0))"

definition part_body :: "buffer \<Rightarrow> buffer" where
  "part_body buffer =
     slice buffer (indexOf buffer DOUBLE_CRLF 0 + 4) (int (length buffer) - 4)"

text \<open>
  Lines 149 to 155: the object \<open>headers\<close> is a map from keys to strings, and a key
  holding \<open>undefined\<close> reads like a key that is absent. For each line, the key is the
  lower-cased first piece of the line split on \<open>: \<close> and the value is the second
  piece, \<open>undefined\<close> when there is none. The first piece is there for every line
  (\<open>split_str_not_Nil\<close> below). The head is split on \<open>CRLF\<close>, a buffer that \<open>split\<close>
  turns into the string of its two characters. The decoder reads two keys of the
  object, which an assignment to another key, \<open>__proto__\<close> too, does not change.
\<close>

definition header_line :: "jsstring \<Rightarrow> (jsstring \<rightharpoonup> jsstring) \<Rightarrow> (jsstring \<rightharpoonup> jsstring)" where
  "header_line line headers =
     (let parts = split_str line (units '': '');
          key = toLowerCase (hd parts);
          val = nth_opt parts 1
      in headers(key := val))"

definition parse_headers :: "jsstring \<Rightarrow> (jsstring \<rightharpoonup> jsstring)" where
  "parse_headers head = fold header_line (split_str head (toString CRLF)) Map.empty"

text \<open>
  \<open>parseContent(buffer, callback)\<close> calls \<open>callback\<close> once: \<open>Inl err\<close> is
  \<open>callback(err)\<close> and \<open>Inr (key, value)\<close> is \<open>callback(false, [key, value])\<close>.
  An absent or empty \<open>Content-Type\<close> is falsy and gives the default type.
\<close>

definition parseContent :: "buffer \<Rightarrow> jsstring + (jsstring \<times> form_value)" where
  "parseContent buffer =
     (let head = part_head buffer;
          body = part_body buffer;
          headers = parse_headers head
      in case exec_attr name_lit (exec_arg (headers (units ''content-disposition''))) of
           None \<Rightarrow> Inl (units ''No name in multipart content header'')
         | Some name \<Rightarrow>
             (case exec_attr filename_lit (exec_arg (headers (units ''content-disposition''))) of
                Some fname \<Rightarrow>
                  Inr (name,
                       File fname
                         (case headers (units ''content-type'') of
                            None \<Rightarrow> units ''application/octet-stream''
                          | Some ct \<Rightarrow> if ct = [] then units ''application/octet-stream'' else ct)
                         body)
              | None \<Rightarrow> Inr (name, Field (toString body))))"

subsection \<open>\<open>processBody\<close>\<close>

text \<open>
  The object \<open>formData\<close>: its own properties, and the prototype that an assignment
  to the key \<open>__proto__\<close> replaces when the value is an object (a file); such an
  assignment makes no property, and does nothing at all when the value is a string.
\<close>

record formData =
  props :: "jsstring \<rightharpoonup> form_value"
  proto :: "form_value option"

definition empty_formData :: formData where
  "empty_formData = \<lparr>props = Map.empty, proto = None\<rparr>"

definition set_prop :: "formData \<Rightarrow> jsstring \<Rightarrow> form_value \<Rightarrow> formData" where
  "set_prop fd key v =
     (if key = units ''__proto__''
      then (case v of Field _ \<Rightarrow> fd | File _ _ _ \<Rightarrow> fd\<lparr>proto := Some v\<rparr>)
      else fd\<lparr>props := (props fd)(key \<mapsto> v)\<rparr>)"

text \<open>
  \<open>processBody(buffer, boundary, callback)\<close> is modelled by the calls it makes to
  \<open>callback\<close>, in order: \<open>Inl err\<close> is \<open>callback(err)\<close> and \<open>Inr formData\<close> is
  \<open>callback(false, formData)\<close>. The \<open>return\<close> of line 99 leaves the function given to
  \<open>parseContent\<close>, not the \<open>forEach\<close>: the next part is parsed, and line 105 is
  reached in every case.
\<close>

definition process_part ::
  "buffer \<Rightarrow> (jsstring + formData) list \<times> formData \<Rightarrow> (jsstring + formData) list \<times> formData" where
  "process_part content st =
     (case parseContent content of
        Inl err \<Rightarrow> (fst st @ [Inl err], snd st)
      | Inr (key, v) \<Rightarrow> (fst st, set_prop (snd st) key v))"

definition processBody :: "buffer \<Rightarrow> jsstring \<Rightarrow> (jsstring + formData) list" where
  "processBody buffer boundary =
     (let st = fold process_part (splitContentParts buffer boundary) ([], empty_formData)
      in fst st @ [Inr (snd st)])"

section \<open>Facts about the library functions\<close>

lemma indexOf_from_eq_iff:
  "indexOf_from xs v i = int (i + k) \<longleftrightarrow>
     k \<le> length xs \<and> prefix v (drop k xs) \<and> (\<forall>j<k. \<not> prefix v (drop j xs))"
proof (induction xs arbitrary: i k)
  case Nil
  show ?case by auto
next
  case (Cons x xs)
  show ?case
  proof (cases "prefix v (x # xs)")
    case True
    then show ?thesis by auto
  next
    case False
    show ?thesis
    proof (cases k)
      case 0
      from indexOf_from_bounds [of xs v "Suc i"] have "indexOf_from xs v (Suc i) \<noteq> int i"
        by auto
      with False 0 show ?thesis by simp
    next
      case (Suc k')
      have "(\<forall>j<Suc k'. \<not> prefix v (drop j (x # xs))) \<longleftrightarrow> (\<forall>j<k'. \<not> prefix v (drop j xs))"
        using False by (auto simp: less_Suc_eq_0_disj)
      with Cons.IH [of "Suc i" k'] False Suc show ?thesis by simp
    qed
  qed
qed

lemma indexOf_from_none_iff:
  "indexOf_from xs v i = - 1 \<longleftrightarrow> (\<forall>k\<le>length xs. \<not> prefix v (drop k xs))"
proof (induction xs arbitrary: i)
  case Nil
  show ?case by auto
next
  case (Cons x xs)
  have "(\<forall>k\<le>length (x # xs). \<not> prefix v (drop k (x # xs))) \<longleftrightarrow>
        \<not> prefix v (x # xs) \<and> (\<forall>k\<le>length xs. \<not> prefix v (drop k xs))"
  proof
    assume a: "\<forall>k\<le>length (x # xs). \<not> prefix v (drop k (x # xs))"
    from a [rule_format, of 0] have "\<not> prefix v (x # xs)" by simp
    moreover have "\<not> prefix v (drop k xs)" if "k \<le> length xs" for k
      using a [rule_format, of "Suc k"] that by simp
    ultimately show "\<not> prefix v (x # xs) \<and> (\<forall>k\<le>length xs. \<not> prefix v (drop k xs))"
      by blast
  next
    assume a: "\<not> prefix v (x # xs) \<and> (\<forall>k\<le>length xs. \<not> prefix v (drop k xs))"
    show "\<forall>k\<le>length (x # xs). \<not> prefix v (drop k (x # xs))"
    proof (intro allI impI)
      fix k assume "k \<le> length (x # xs)"
      with a show "\<not> prefix v (drop k (x # xs))" by (cases k) auto
    qed
  qed
  with Cons.IH [of "Suc i"] show ?case by auto
qed

lemma indexOf_nat:
  "off \<le> length buf \<Longrightarrow> indexOf buf v (int off) = indexOf_from (drop off buf) v off"
  by (simp add: indexOf_def)

lemma indexOf_eq_iff:
  assumes "off \<le> length buf"
  shows "indexOf buf v (int off) = int (off + k) \<longleftrightarrow>
     off + k \<le> length buf \<and> prefix v (drop (off + k) buf) \<and>
     (\<forall>j<k. \<not> prefix v (drop (off + j) buf))"
proof -
  have "indexOf buf v (int off) = indexOf_from (drop off buf) v off"
    using assms by (rule indexOf_nat)
  moreover have "off + k \<le> length buf \<longleftrightarrow> k \<le> length (drop off buf)"
    using assms by auto
  moreover have "drop (off + j) buf = drop j (drop off buf)" for j
    by (simp add: add.commute)
  ultimately show ?thesis
    by (simp only: indexOf_from_eq_iff)
qed

lemma slice_nat:
  "s \<le> e \<Longrightarrow> e \<le> length buf \<Longrightarrow> slice buf (int s) (int e) = take (e - s) (drop s buf)"
  by (auto simp: slice_def adjustOffset_def Let_def nat_diff_distrib')

section \<open>Facts about the boundary locator\<close>

lemma while_split_loop:
  "\<exists>s' e'. while_option (\<lambda>(parts, start, end). end > start)
           (\<lambda>(parts, start, end).
              (parts @ [slice buffer start end],
               end + int (length boundary),
               indexOf buffer (utf8Write boundary) (end + int (length boundary))))
           (ps, s, e) = Some (ps @ split_loop buffer boundary s e, s', e') \<and> \<not> e' > s'"
proof (induction buffer boundary s e arbitrary: ps rule: split_loop.induct)
  case (1 buffer boundary start "end")
  show ?case
  proof (cases "end > start")
    case True
    from "1.IH" [OF True, of "ps @ [slice buffer start end]"] True
    show ?thesis
      by (subst while_option_unfold, subst split_loop.simps) simp
  next
    case False
    then show ?thesis
      by (subst while_option_unfold, subst split_loop.simps) simp
  qed
qed

lemma prefix_drop_sublist: "prefix v (drop k buf) \<Longrightarrow> sublist v buf"
  by (metis prefix_imp_sublist sublist_drop sublist_order.order_trans)

lemma indexOf_from_none: "\<not> sublist v xs \<Longrightarrow> indexOf_from xs v i = - 1"
  by (auto simp: indexOf_from_none_iff dest: prefix_drop_sublist)

lemma indexOf_none:
  assumes "\<not> sublist v buf" and "0 \<le> off"
  shows "indexOf buf v off = - 1"
proof (cases "int (length buf) < off")
  case True
  from assms(1) have "v \<noteq> []" by auto
  with True assms(2) show ?thesis by (simp add: indexOf_def)
next
  case False
  have "\<not> sublist v (drop (nat off) buf)"
    using assms(1) by (meson sublist_drop sublist_order.order_trans)
  then have "indexOf_from (drop (nat off) buf) v (nat off) = - 1" by (rule indexOf_from_none)
  with False assms(2) show ?thesis by (simp add: indexOf_def)
qed

lemma indexOf_from_ge_minus_one: "- 1 \<le> indexOf_from xs v i"
  using indexOf_from_bounds [of xs v i] by auto

lemma indexOf_ge_minus_one:
  assumes "0 \<le> off"
  shows "- 1 \<le> indexOf buf v off"
proof (cases "int (length buf) < off")
  case True
  then show ?thesis by (simp add: indexOf_def)
next
  case False
  with assms have "indexOf buf v off = indexOf_from (drop (nat off) buf) v (nat off)"
    by (simp add: indexOf_def)
  then show ?thesis by (simp add: indexOf_from_ge_minus_one)
qed

lemma split_loop_stop: "\<not> start < end \<Longrightarrow> split_loop buffer boundary start end = []"
  by (subst split_loop.simps) simp

lemma split_loop_step:
  "start < end \<Longrightarrow> split_loop buffer boundary start end =
     slice buffer start end #
     split_loop buffer boundary (end + int (length boundary))
       (indexOf buffer (utf8Write boundary) (end + int (length boundary)))"
  by (subst split_loop.simps) simp

lemma found_after:
  assumes "0 \<le> s" and "s < indexOf buffer (utf8Write boundary) s"
  shows "indexOf buffer (utf8Write boundary) s \<le> int (length buffer)"
  using indexOf_bounds [OF assms(1), of buffer "utf8Write boundary"] assms by auto

lemma split_loop_length:
  "0 \<le> s \<Longrightarrow> e = indexOf buffer (utf8Write boundary) s \<Longrightarrow>
   int (length (split_loop buffer boundary s e)) \<le> max 0 (int (length buffer) - s)"
proof (induction buffer boundary s e rule: split_loop.induct)
  case (1 buffer boundary start "end")
  show ?case
  proof (cases "start < end")
    case False
    then show ?thesis by (simp add: split_loop_stop)
  next
    case True
    with "1.prems" have fa: "end \<le> int (length buffer)"
      using found_after [of start buffer boundary] by simp
    from True "1.prems" have "0 \<le> end + int (length boundary)" by simp
    from "1.IH" [OF True this refl] True fa show ?thesis
      by (simp add: split_loop_step)
  qed
qed

lemma first_start_nonneg: "0 \<le> indexOf buffer v 0 + int n + 2"
  using indexOf_ge_minus_one [of 0 buffer v] by simp

lemma char_of_dash: "char_of (45 :: int) = CHR ''-''"
  by code_simp

lemma utf8Write_dashes: "utf8Write (units ''--'' @ boundary) = ''--'' @ utf8Write boundary"
  by (cases boundary) (simp_all add: units_def encode_cp_def char_of_dash)

lemma utf8Write_ascii: "utf8Write (units s) = s" if "\<forall>c\<in>set s. of_char c < (128::int)"
  using that
proof (induction s rule: induct_list012)
  case 1
  show ?case by (simp add: units_def)
next
  case (2 x)
  then show ?case by (simp add: units_def encode_cp_def)
next
  case (3 x y zs)
  then show ?case by (simp add: units_def encode_cp_def)
qed

section \<open>Termination of the boundary locator\<close>

text \<open>
  Claim C10. For every buffer and every non-empty boundary token, the scanning loop of
  the boundary locator comes to an end and returns a finite list of part buffers: the
  \<open>while\<close> loop of the source, run on its state, stops in a state where
  \<open>end > start\<close> is false, and its list of parts is the one \<open>splitContentParts\<close>
  computes; the list has at most as many parts as the buffer has bytes. No call of
  the loop can throw: \<open>indexOf\<close> and \<open>slice\<close> are defined on every offset.
\<close>

theorem splitContentParts_terminates:
  assumes "boundary \<noteq> []"
  shows "(\<exists>start end. splitContentParts_while buffer boundary =
            Some (splitContentParts buffer boundary, start, end) \<and> \<not> start < end) \<and>
         length (splitContentParts buffer boundary) \<le> length buffer"
proof
  show "\<exists>start end. splitContentParts_while buffer boundary =
            Some (splitContentParts buffer boundary, start, end) \<and> \<not> start < end"
    using while_split_loop [of buffer boundary "[]"]
    by (simp add: splitContentParts_while_def splitContentParts_def Let_def)
next
  let ?s = "indexOf buffer (utf8Write (units ''--'' @ boundary)) 0 + int (length boundary) + 2"
  have "0 \<le> ?s" by (rule first_start_nonneg)
  from split_loop_length [OF this refl, of buffer boundary] assms
  show "length (splitContentParts buffer boundary) \<le> length buffer"
    using indexOf_ge_minus_one [of 0 buffer "utf8Write (units ''--'' @ boundary)"]
    by (simp add: splitContentParts_def Let_def)
qed

theorem splitContentParts_terminates_witness:
  \<open>units ''B'' \<noteq> [] \<and>
   (\<exists>start end. splitContentParts_while (''--B'' @ CRLF @ ''h'' @ DOUBLE_CRLF @ ''v'' @ CRLF @ ''--B--'') (units ''B'') =
     Some ([CRLF @ ''h'' @ DOUBLE_CRLF @ ''v'' @ CRLF @ ''--''], start, end) \<and> \<not> start < end)\<close>
proof -
  have ne: "units ''B'' \<noteq> []" by (simp add: units_def)
  have parts: \<open>splitContentParts (''--B'' @ CRLF @ ''h'' @ DOUBLE_CRLF @ ''v'' @ CRLF @ ''--B--'') (units ''B'') =
      [CRLF @ ''h'' @ DOUBLE_CRLF @ ''v'' @ CRLF @ ''--'']\<close>
    by code_simp
  from splitContentParts_terminates [OF ne, of \<open>''--B'' @ CRLF @ ''h'' @ DOUBLE_CRLF @ ''v'' @ CRLF @ ''--B--''\<close>]
  show ?thesis unfolding parts using ne by simp
qed

section \<open>Where the first part starts\<close>

lemma found_slice:
  assumes "0 \<le> s" and "s < indexOf buffer (utf8Write boundary) s"
  shows "\<exists>n>0. slice buffer s (indexOf buffer (utf8Write boundary) s) = take n (drop (nat s) buffer) \<and>
               indexOf buffer (utf8Write boundary) s = s + int n \<and> nat s + n \<le> length buffer"
proof -
  define e where "e = indexOf buffer (utf8Write boundary) s"
  from found_after [OF assms] have le: "e \<le> int (length buffer)" by (simp add: e_def)
  from assms have se: "nat s \<le> nat e" "0 \<le> e" by (simp_all add: e_def)
  from le se have "nat e \<le> length buffer" by simp
  from slice_nat [OF se(1) this] assms se
  have "slice buffer s e = take (nat e - nat s) (drop (nat s) buffer)" by simp
  moreover from assms se have "0 < nat e - nat s" "e = s + int (nat e - nat s)"
    by (simp_all add: e_def)
  moreover from le se have "nat s + (nat e - nat s) \<le> length buffer" by simp
  ultimately show ?thesis unfolding e_def by blast
qed

lemma found_at_splits:
  assumes "indexOf buffer v 0 = int i"
  shows "buffer = take i buffer @ v @ drop (i + length v) buffer"
proof -
  from assms have "indexOf buffer v (int 0) = int (0 + i)" by simp
  moreover have "0 \<le> length buffer" by simp
  ultimately have "prefix v (drop (0 + i) buffer)"
    using indexOf_eq_iff [of 0 buffer v i] by blast
  then obtain rest where r: "drop i buffer = v @ rest" by (auto simp: prefix_def)
  have "drop (i + length v) buffer = drop (length v) (drop i buffer)"
    by (simp add: add.commute)
  with r have "drop (i + length v) buffer = rest" by simp
  with r have "drop i buffer = v @ drop (i + length v) buffer" by simp
  then have "take i buffer @ drop i buffer = take i buffer @ v @ drop (i + length v) buffer"
    by simp
  then show ?thesis by simp
qed

text \<open>
  Claim C8, as the code has it. When the delimiter \<open>--\<close> plus the boundary token is
  first found at index \<open>i\<close> and the locator returns a first part, that part is a
  non-empty run of bytes of the buffer that starts at index \<open>i + boundary.length + 2\<close>
  and ends where the bare boundary token is next found. For a token that has as many
  UTF-8 bytes as code units, an ASCII token, that index is immediately after the
  delimiter bytes: the buffer is the bytes in front of the delimiter, the delimiter,
  and the bytes from that index on. The CR LF that follows the delimiter line is not
  skipped: it is the start of the first part.
\<close>

theorem first_part_starts_after_delimiter:
  assumes "indexOf buffer (''--'' @ utf8Write boundary) 0 = int i"
    and "splitContentParts buffer boundary = p # ps"
  shows "(\<exists>n>0. p = take n (drop (i + length boundary + 2) buffer) \<and>
               indexOf buffer (utf8Write boundary) (int (i + length boundary + 2)) =
                 int (i + length boundary + 2 + n)) \<and>
         (length (utf8Write boundary) = length boundary \<longrightarrow>
            buffer = take i buffer @ (''--'' @ utf8Write boundary) @
                     drop (i + length boundary + 2) buffer)"
proof (intro conjI impI)
  define s where "s = int (i + length boundary + 2)"
  have s: "indexOf buffer (utf8Write (units ''--'' @ boundary)) 0 + int (length boundary) + 2 = s"
    using assms(1) by (simp add: s_def utf8Write_dashes)
  from assms(2) have loop:
    "split_loop buffer boundary s (indexOf buffer (utf8Write boundary) s) = p # ps"
    unfolding splitContentParts_def Let_def s .
  have gt: "s < indexOf buffer (utf8Write boundary) s"
  proof (rule ccontr)
    assume "\<not> s < indexOf buffer (utf8Write boundary) s"
    then have "split_loop buffer boundary s (indexOf buffer (utf8Write boundary) s) = []"
      by (rule split_loop_stop)
    with loop show False by simp
  qed
  from loop gt have p: "p = slice buffer s (indexOf buffer (utf8Write boundary) s)"
    by (simp add: split_loop_step)
  have "0 \<le> s" by (simp add: s_def)
  from found_slice [OF this gt] obtain n where n:
    "0 < n" "slice buffer s (indexOf buffer (utf8Write boundary) s) = take n (drop (nat s) buffer)"
    "indexOf buffer (utf8Write boundary) s = s + int n" by blast
  have "nat s = i + length boundary + 2" by (simp add: s_def)
  with n p have "0 < n \<and> p = take n (drop (i + length boundary + 2) buffer) \<and>
      indexOf buffer (utf8Write boundary) s = int (i + length boundary + 2 + n)"
    by (simp add: s_def)
  then show "\<exists>n>0. p = take n (drop (i + length boundary + 2) buffer) \<and>
               indexOf buffer (utf8Write boundary) (int (i + length boundary + 2)) =
                 int (i + length boundary + 2 + n)"
    unfolding s_def by blast
next
  assume len: "length (utf8Write boundary) = length boundary"
  from found_at_splits [OF assms(1)]
  have "buffer = take i buffer @ (''--'' @ utf8Write boundary) @
          drop (i + length (''--'' @ utf8Write boundary)) buffer" .
  moreover have "i + length (''--'' @ utf8Write boundary) = i + length boundary + 2"
    using len by simp
  ultimately show "buffer = take i buffer @ (''--'' @ utf8Write boundary) @
                     drop (i + length boundary + 2) buffer"
    by simp
qed

theorem first_part_starts_after_delimiter_witness:
  \<open>indexOf (''--XYZ'' @ CRLF @ ''A: b'' @ DOUBLE_CRLF @ ''v'' @ CRLF @ ''--XYZ--'')
      (''--'' @ utf8Write (units ''XYZ'')) 0 = int 0 \<and>
   splitContentParts (''--XYZ'' @ CRLF @ ''A: b'' @ DOUBLE_CRLF @ ''v'' @ CRLF @ ''--XYZ--'') (units ''XYZ'') =
     (CRLF @ ''A: b'' @ DOUBLE_CRLF @ ''v'' @ CRLF @ ''--'') # [] \<and>
   length (utf8Write (units ''XYZ'')) = length (units ''XYZ'') \<and>
   (\<exists>n>0. CRLF @ ''A: b'' @ DOUBLE_CRLF @ ''v'' @ CRLF @ ''--'' =
       take n (drop (0 + length (units ''XYZ'') + 2)
         (''--XYZ'' @ CRLF @ ''A: b'' @ DOUBLE_CRLF @ ''v'' @ CRLF @ ''--XYZ--''))) \<and>
   ''--XYZ'' @ CRLF @ ''A: b'' @ DOUBLE_CRLF @ ''v'' @ CRLF @ ''--XYZ--'' =
     take 0 (''--XYZ'' @ CRLF @ ''A: b'' @ DOUBLE_CRLF @ ''v'' @ CRLF @ ''--XYZ--'') @
     (''--'' @ utf8Write (units ''XYZ'')) @
     drop (0 + length (units ''XYZ'') + 2)
       (''--XYZ'' @ CRLF @ ''A: b'' @ DOUBLE_CRLF @ ''v'' @ CRLF @ ''--XYZ--'')\<close>
proof -
  have a: \<open>indexOf (''--XYZ'' @ CRLF @ ''A: b'' @ DOUBLE_CRLF @ ''v'' @ CRLF @ ''--XYZ--'')
      (''--'' @ utf8Write (units ''XYZ'')) 0 = int 0\<close>
    by code_simp
  have b: \<open>splitContentParts (''--XYZ'' @ CRLF @ ''A: b'' @ DOUBLE_CRLF @ ''v'' @ CRLF @ ''--XYZ--'') (units ''XYZ'') =
     (CRLF @ ''A: b'' @ DOUBLE_CRLF @ ''v'' @ CRLF @ ''--'') # []\<close>
    by code_simp
  have c: \<open>length (utf8Write (units ''XYZ'')) = length (units ''XYZ'')\<close>
    by code_simp
  note t = first_part_starts_after_delimiter [OF a b]
  from t [THEN conjunct1] have d: \<open>\<exists>n>0. CRLF @ ''A: b'' @ DOUBLE_CRLF @ ''v'' @ CRLF @ ''--'' =
       take n (drop (0 + length (units ''XYZ'') + 2)
         (''--XYZ'' @ CRLF @ ''A: b'' @ DOUBLE_CRLF @ ''v'' @ CRLF @ ''--XYZ--''))\<close>
    by blast
  from a b c d t [THEN conjunct2, rule_format, OF c] show ?thesis by (intro conjI)
qed

text \<open>
  The claim as stated fails on a buffer of one part: the part is the bytes from offset
  5, the end of the delimiter, and not from offset 7, after the CR LF; its first two
  bytes are that CR LF.
\<close>

theorem first_part_keeps_CRLF_counterexample:
  \<open>splitContentParts (''--XYZ'' @ CRLF @ ''A: b'' @ DOUBLE_CRLF @ ''v'' @ CRLF @ ''--XYZ--'') (units ''XYZ'') =
     [slice (''--XYZ'' @ CRLF @ ''A: b'' @ DOUBLE_CRLF @ ''v'' @ CRLF @ ''--XYZ--'') 5 20] \<and>
   splitContentParts (''--XYZ'' @ CRLF @ ''A: b'' @ DOUBLE_CRLF @ ''v'' @ CRLF @ ''--XYZ--'') (units ''XYZ'') \<noteq>
     [slice (''--XYZ'' @ CRLF @ ''A: b'' @ DOUBLE_CRLF @ ''v'' @ CRLF @ ''--XYZ--'') 7 20] \<and>
   take 2 (hd (splitContentParts (''--XYZ'' @ CRLF @ ''A: b'' @ DOUBLE_CRLF @ ''v'' @ CRLF @ ''--XYZ--'') (units ''XYZ''))) = CRLF\<close>
  by code_simp

text \<open>
  A token beyond ASCII has more bytes than code units, and the part then starts inside
  the delimiter: for the token \<open>U+00E9\<close>, of one code unit and the two bytes
  \<open>C3 A9\<close>, the first part starts with the byte \<open>A9\<close> of the delimiter.
\<close>

lemma first_part_of_non_ascii_token:
  \<open>splitContentParts (''--'' @ [CHR 0xC3, CHR 0xA9] @ ''x--'' @ [CHR 0xC3, CHR 0xA9]) [0xE9] =
     [[CHR 0xA9] @ ''x--'']\<close>
  by code_simp

section \<open>Two delimiters with nothing between them\<close>

lemma split_loop_no_empty_part:
  "0 \<le> s \<Longrightarrow> e = indexOf buffer (utf8Write boundary) s \<Longrightarrow> [] \<notin> set (split_loop buffer boundary s e)"
proof (induction buffer boundary s e rule: split_loop.induct)
  case (1 buffer boundary start "end")
  show ?case
  proof (cases "start < end")
    case False
    then show ?thesis by (simp add: split_loop_stop)
  next
    case True
    with "1.prems" have gt: "start < indexOf buffer (utf8Write boundary) start" by simp
    from found_slice [OF "1.prems"(1) gt] obtain n where n: "0 < n"
      "slice buffer start (indexOf buffer (utf8Write boundary) start) = take n (drop (nat start) buffer)"
      "nat start + n \<le> length buffer" by blast
    then have "slice buffer start end \<noteq> []" using "1.prems"(2) by auto
    moreover from True "1.prems" have "0 \<le> end + int (length boundary)" by simp
    from "1.IH" [OF True this refl]
    have "[] \<notin> set (split_loop buffer boundary (end + int (length boundary))
             (indexOf buffer (utf8Write boundary) (end + int (length boundary))))" .
    ultimately show ?thesis using True by (simp add: split_loop_step)
  qed
qed

lemma splitContentParts_no_empty_part: "[] \<notin> set (splitContentParts buffer boundary)"
  unfolding splitContentParts_def Let_def
  by (rule split_loop_no_empty_part [OF first_start_nonneg refl])

lemma two_dashes_then_token:
  assumes "drop s buffer = ''--'' @ utf8Write boundary @ rest"
    and "\<not> prefix (utf8Write boundary) (''--'' @ utf8Write boundary @ rest)"
    and "\<not> prefix (utf8Write boundary) (''-'' @ utf8Write boundary @ rest)"
  shows "indexOf buffer (utf8Write boundary) (int s) = int (s + 2)"
proof -
  from assms(1) have "length (drop s buffer) = length (''--'' @ utf8Write boundary @ rest)" by simp
  then have len: "s + 2 \<le> length buffer" by simp
  then have s: "s \<le> length buffer" by simp
  have "drop (s + 2) buffer = drop 2 (drop s buffer)" by (simp add: add.commute)
  with assms(1) have p2: "prefix (utf8Write boundary) (drop (s + 2) buffer)" by simp
  have p0: "\<not> prefix (utf8Write boundary) (drop (s + 0) buffer)" using assms(1,2) by simp
  have "drop (s + 1) buffer = drop 1 (drop s buffer)" by (simp add: add.commute)
  with assms(1,3) have p1: "\<not> prefix (utf8Write boundary) (drop (s + 1) buffer)" by simp
  have "\<forall>j<2. \<not> prefix (utf8Write boundary) (drop (s + j) buffer)"
  proof (intro allI impI)
    fix j :: nat assume "j < 2"
    then have "j = 0 \<or> j = 1" by auto
    with p0 p1 show "\<not> prefix (utf8Write boundary) (drop (s + j) buffer)" by auto
  qed
  with len p2 show ?thesis by (simp only: indexOf_eq_iff [OF s, of "utf8Write boundary" 2])
qed

text \<open>
  Claim C9, as the code has it. The locator never emits an empty part. Where the scan
  stands at an offset \<open>s\<close> that a delimiter \<open>--\<close> plus boundary token follows at
  once (the zero bytes between two delimiters, when \<open>s\<close> is the end of a delimiter),
  and the bare token is not found before the token of that delimiter (it starts
  neither at its first dash nor at its second), the part emitted is the two dashes of
  that delimiter, since a part ends where the bare token is found, and the scan goes on
  \<open>boundary.length\<close> bytes further, which is after the token when it is ASCII. A range whose end is its start, the bare token found at the very
  offset of the scan, is not emitted and ends the scan.
\<close>

theorem empty_range_between_delimiters:
  "[] \<notin> set (splitContentParts buffer boundary) \<and>
   (drop s buffer = ''--'' @ utf8Write boundary @ rest \<longrightarrow>
    \<not> prefix (utf8Write boundary) (''--'' @ utf8Write boundary @ rest) \<longrightarrow>
    \<not> prefix (utf8Write boundary) (''-'' @ utf8Write boundary @ rest) \<longrightarrow>
      split_loop buffer boundary (int s) (indexOf buffer (utf8Write boundary) (int s)) =
        ''--'' # split_loop buffer boundary (int (s + 2 + length boundary))
                  (indexOf buffer (utf8Write boundary) (int (s + 2 + length boundary)))) \<and>
   (indexOf buffer (utf8Write boundary) start = start \<longrightarrow>
      split_loop buffer boundary start (indexOf buffer (utf8Write boundary) start) = [])"
proof (intro conjI impI)
  show "[] \<notin> set (splitContentParts buffer boundary)" by (rule splitContentParts_no_empty_part)
next
  assume a: "drop s buffer = ''--'' @ utf8Write boundary @ rest"
    "\<not> prefix (utf8Write boundary) (''--'' @ utf8Write boundary @ rest)"
    "\<not> prefix (utf8Write boundary) (''-'' @ utf8Write boundary @ rest)"
  from two_dashes_then_token [OF a] have e: "indexOf buffer (utf8Write boundary) (int s) = int (s + 2)" .
  from a(1) have "length (drop s buffer) = length (''--'' @ utf8Write boundary @ rest)" by simp
  then have len: "s + 2 \<le> length buffer" by simp
  have "slice buffer (int s) (int (s + 2)) = take (s + 2 - s) (drop s buffer)"
    by (rule slice_nat) (use len in simp_all)
  with a(1) have sl: "slice buffer (int s) (int (s + 2)) = ''--''" by simp
  have "int s < int (s + 2)" by simp
  from split_loop_step [OF this, of buffer boundary] sl
  show "split_loop buffer boundary (int s) (indexOf buffer (utf8Write boundary) (int s)) =
        ''--'' # split_loop buffer boundary (int (s + 2 + length boundary))
                  (indexOf buffer (utf8Write boundary) (int (s + 2 + length boundary)))"
    unfolding e by (simp add: add.commute add.left_commute)
next
  assume "indexOf buffer (utf8Write boundary) start = start"
  then have "\<not> start < indexOf buffer (utf8Write boundary) start" by simp
  then show "split_loop buffer boundary start (indexOf buffer (utf8Write boundary) start) = []"
    by (rule split_loop_stop)
qed

theorem empty_range_between_delimiters_witness:
  \<open>drop 5 (''----B----B'' @ CRLF @ ''h'' @ DOUBLE_CRLF @ ''v'' @ CRLF @ ''----B--'') = ''--'' @ utf8Write (units ''--B'') @ (CRLF @ ''h'' @ DOUBLE_CRLF @ ''v'' @ CRLF @ ''----B--'') \<and>
   \<not> prefix (utf8Write (units ''--B'')) (''--'' @ utf8Write (units ''--B'') @ (CRLF @ ''h'' @ DOUBLE_CRLF @ ''v'' @ CRLF @ ''----B--'')) \<and>
   \<not> prefix (utf8Write (units ''--B'')) (''-'' @ utf8Write (units ''--B'') @ (CRLF @ ''h'' @ DOUBLE_CRLF @ ''v'' @ CRLF @ ''----B--'')) \<and>
   split_loop (''----B----B'' @ CRLF @ ''h'' @ DOUBLE_CRLF @ ''v'' @ CRLF @ ''----B--'') (units ''--B'') (int 5)
     (indexOf (''----B----B'' @ CRLF @ ''h'' @ DOUBLE_CRLF @ ''v'' @ CRLF @ ''----B--'') (utf8Write (units ''--B'')) (int 5)) =
   ''--'' # split_loop (''----B----B'' @ CRLF @ ''h'' @ DOUBLE_CRLF @ ''v'' @ CRLF @ ''----B--'') (units ''--B'')
              (int (5 + 2 + length (units ''--B'')))
              (indexOf (''----B----B'' @ CRLF @ ''h'' @ DOUBLE_CRLF @ ''v'' @ CRLF @ ''----B--'') (utf8Write (units ''--B''))
                 (int (5 + 2 + length (units ''--B'')))) \<and>
   [] \<notin> set (splitContentParts (''----B----B'' @ CRLF @ ''h'' @ DOUBLE_CRLF @ ''v'' @ CRLF @ ''----B--'') (units ''--B'')) \<and>
   indexOf (''--BB'' @ CRLF @ ''h'') (utf8Write (units ''B'')) 3 = 3 \<and>
   split_loop (''--BB'' @ CRLF @ ''h'') (units ''B'') 3
     (indexOf (''--BB'' @ CRLF @ ''h'') (utf8Write (units ''B'')) 3) = []\<close>
proof -
  have d: \<open>drop 5 (''----B----B'' @ CRLF @ ''h'' @ DOUBLE_CRLF @ ''v'' @ CRLF @ ''----B--'') = ''--'' @ utf8Write (units ''--B'') @ (CRLF @ ''h'' @ DOUBLE_CRLF @ ''v'' @ CRLF @ ''----B--'')\<close>
    by code_simp
  have b: \<open>\<not> prefix (utf8Write (units ''--B'')) (''--'' @ utf8Write (units ''--B'') @ (CRLF @ ''h'' @ DOUBLE_CRLF @ ''v'' @ CRLF @ ''----B--''))\<close>
    \<open>\<not> prefix (utf8Write (units ''--B'')) (''-'' @ utf8Write (units ''--B'') @ (CRLF @ ''h'' @ DOUBLE_CRLF @ ''v'' @ CRLF @ ''----B--''))\<close>
    by code_simp+
  have i: \<open>indexOf (''--BB'' @ CRLF @ ''h'') (utf8Write (units ''B'')) 3 = 3\<close> by code_simp
  note t1 = empty_range_between_delimiters [of \<open>(''----B----B'' @ CRLF @ ''h'' @ DOUBLE_CRLF @ ''v'' @ CRLF @ ''----B--'')\<close> "units ''--B''" 5 \<open>(CRLF @ ''h'' @ DOUBLE_CRLF @ ''v'' @ CRLF @ ''----B--'')\<close>]
  note t2 = empty_range_between_delimiters [of \<open>''--BB'' @ CRLF @ ''h''\<close> "units ''B''" _ _ 3]
  from t1 [THEN conjunct1] t1 [THEN conjunct2, THEN conjunct1, rule_format, OF d b]
       t2 [THEN conjunct2, THEN conjunct2, rule_format, OF i] d b i
  show ?thesis by (intro conjI)
qed

text \<open>
  The claim as stated fails on a buffer whose first delimiter is followed at once by a
  second one: the locator emits the part \<open>--\<close> and the part after it, and no empty
  part.
\<close>

theorem empty_range_between_delimiters_counterexample:
  \<open>drop 3 (''--B--B'' @ CRLF @ ''h'' @ DOUBLE_CRLF @ ''v'' @ CRLF @ ''--B--'') =
     ''--B'' @ CRLF @ ''h'' @ DOUBLE_CRLF @ ''v'' @ CRLF @ ''--B--'' \<and>
   splitContentParts (''--B--B'' @ CRLF @ ''h'' @ DOUBLE_CRLF @ ''v'' @ CRLF @ ''--B--'') (units ''B'') =
     [''--'', CRLF @ ''h'' @ DOUBLE_CRLF @ ''v'' @ CRLF @ ''--''] \<and>
   [] \<notin> set (splitContentParts (''--B--B'' @ CRLF @ ''h'' @ DOUBLE_CRLF @ ''v'' @ CRLF @ ''--B--'') (units ''B''))\<close>
  by code_simp

section \<open>A buffer without the delimiter\<close>

lemma processBody_last: "last (processBody buffer boundary) = Inr (snd (fold process_part (splitContentParts buffer boundary) ([], empty_formData)))"
  by (simp add: processBody_def Let_def)

lemma processBody_no_parts:
  "splitContentParts buffer boundary = [] \<Longrightarrow> processBody buffer boundary = [Inr empty_formData]"
  by (simp add: processBody_def)

lemma parseContent_error:
  "parseContent content = Inl e \<Longrightarrow> e = units ''No name in multipart content header''"
  by (auto simp: parseContent_def Let_def split: option.splits)

lemma fold_process_part_errors:
  "Inl e \<in> set (fst (fold process_part parts st)) \<Longrightarrow>
   Inl e \<in> set (fst st) \<or> e = units ''No name in multipart content header''"
proof (induction parts arbitrary: st)
  case Nil
  then show ?case by simp
next
  case (Cons content parts)
  from Cons.prems have "Inl e \<in> set (fst (fold process_part parts (process_part content st)))"
    by simp
  from Cons.IH [OF this] show ?case
  proof
    assume "Inl e \<in> set (fst (process_part content st))"
    then show ?thesis
      by (auto simp: process_part_def split: sum.splits dest: parseContent_error)
  next
    assume "e = units ''No name in multipart content header''"
    then show ?thesis by simp
  qed
qed

lemma processBody_errors:
  "Inl e \<in> set (processBody buffer boundary) \<Longrightarrow> e = units ''No name in multipart content header''"
  using fold_process_part_errors [of e "splitContentParts buffer boundary" "([], empty_formData)"]
  by (auto simp: processBody_def Let_def)

text \<open>
  Claim C2, as the code has it. For every buffer in which \<open>--\<close> plus the boundary
  token occurs nowhere, the decode does not fail for that reason: the locator scans for
  the bare token from offset \<open>boundary.length + 1\<close> on, every error given to the
  callback is the missing name of a part, the last call of the callback is a success
  that carries a form-data result, and when the bare token occurs nowhere either, that
  call is the only one and the result is empty.
\<close>

theorem no_delimiter_no_error:
  assumes "\<not> sublist (''--'' @ utf8Write boundary) buffer"
  shows "splitContentParts buffer boundary =
           split_loop buffer boundary (int (length boundary) + 1)
             (indexOf buffer (utf8Write boundary) (int (length boundary) + 1)) \<and>
         (\<forall>e. Inl e \<in> set (processBody buffer boundary) \<longrightarrow>
              e = units ''No name in multipart content header'') \<and>
         (\<exists>fd. last (processBody buffer boundary) = Inr fd) \<and>
         (\<not> sublist (utf8Write boundary) buffer \<longrightarrow>
            processBody buffer boundary = [Inr empty_formData])"
proof (intro conjI impI allI)
  from assms have "indexOf buffer (utf8Write (units ''--'' @ boundary)) 0 = - 1"
    unfolding utf8Write_dashes by (rule indexOf_none) simp
  then show "splitContentParts buffer boundary =
           split_loop buffer boundary (int (length boundary) + 1)
             (indexOf buffer (utf8Write boundary) (int (length boundary) + 1))"
    by (simp add: splitContentParts_def Let_def add.commute)
  then have parts: "splitContentParts buffer boundary =
           split_loop buffer boundary (int (length boundary) + 1)
             (indexOf buffer (utf8Write boundary) (int (length boundary) + 1))" .
  show "\<exists>fd. last (processBody buffer boundary) = Inr fd"
    by (simp add: processBody_last)
  show "e = units ''No name in multipart content header''"
    if "Inl e \<in> set (processBody buffer boundary)" for e
    using that by (rule processBody_errors)
  assume "\<not> sublist (utf8Write boundary) buffer"
  then have "indexOf buffer (utf8Write boundary) (int (length boundary) + 1) = - 1"
    by (rule indexOf_none) simp
  then have "splitContentParts buffer boundary = []"
    unfolding parts by (simp add: split_loop_stop)
  then show "processBody buffer boundary = [Inr empty_formData]"
    by (rule processBody_no_parts)
qed

theorem no_delimiter_no_error_witness:
  \<open>\<not> sublist (''--'' @ utf8Write (units ''XYZ''))
       (''abcd'' @ CRLF @ ''Content-Disposition: form-data; name="a"'' @ DOUBLE_CRLF @ ''1'' @ CRLF @ ''__XYZ'') \<and>
   splitContentParts
       (''abcd'' @ CRLF @ ''Content-Disposition: form-data; name="a"'' @ DOUBLE_CRLF @ ''1'' @ CRLF @ ''__XYZ'') (units ''XYZ'') =
     [CRLF @ ''Content-Disposition: form-data; name="a"'' @ DOUBLE_CRLF @ ''1'' @ CRLF @ ''__''] \<and>
   (\<exists>fd. last (processBody
       (''abcd'' @ CRLF @ ''Content-Disposition: form-data; name="a"'' @ DOUBLE_CRLF @ ''1'' @ CRLF @ ''__XYZ'') (units ''XYZ'')) =
       Inr fd) \<and>
   \<not> sublist (''--'' @ utf8Write (units ''XYZ'')) ''hello'' \<and> \<not> sublist (utf8Write (units ''XYZ'')) ''hello'' \<and>
   processBody ''hello'' (units ''XYZ'') = [Inr empty_formData]\<close>
proof -
  have a: \<open>\<not> sublist (''--'' @ utf8Write (units ''XYZ''))
       (''abcd'' @ CRLF @ ''Content-Disposition: form-data; name="a"'' @ DOUBLE_CRLF @ ''1'' @ CRLF @ ''__XYZ'')\<close>
    by code_simp
  have b: \<open>\<not> sublist (''--'' @ utf8Write (units ''XYZ'')) ''hello''\<close> \<open>\<not> sublist (utf8Write (units ''XYZ'')) ''hello''\<close>
    by code_simp+
  have c: \<open>split_loop
       (''abcd'' @ CRLF @ ''Content-Disposition: form-data; name="a"'' @ DOUBLE_CRLF @ ''1'' @ CRLF @ ''__XYZ'') (units ''XYZ'')
       (int (length (units ''XYZ'')) + 1)
       (indexOf (''abcd'' @ CRLF @ ''Content-Disposition: form-data; name="a"'' @ DOUBLE_CRLF @ ''1'' @ CRLF @ ''__XYZ'')
          (utf8Write (units ''XYZ'')) (int (length (units ''XYZ'')) + 1)) =
     [CRLF @ ''Content-Disposition: form-data; name="a"'' @ DOUBLE_CRLF @ ''1'' @ CRLF @ ''__'']\<close>
    by code_simp
  from no_delimiter_no_error [OF a] no_delimiter_no_error [OF b(1)] a b c
  show ?thesis by simp
qed

text \<open>
  The claim as stated fails on the buffer \<open>hello\<close> with the token \<open>XYZ\<close>: the
  callback is called once, with no error and the empty form data.
\<close>

theorem no_delimiter_no_error_counterexample:
  \<open>\<not> sublist (''--'' @ utf8Write (units ''XYZ'')) ''hello'' \<and> processBody ''hello'' (units ''XYZ'') = [Inr empty_formData]\<close>
proof -
  have "splitContentParts ''hello'' (units ''XYZ'') = []" by code_simp
  then have "processBody ''hello'' (units ''XYZ'') = [Inr empty_formData]" by (rule processBody_no_parts)
  moreover have "\<not> sublist (''--'' @ utf8Write (units ''XYZ'')) ''hello''" by code_simp
  ultimately show ?thesis by blast
qed

section \<open>A part without the blank line\<close>

lemma slice_to_minus_one: "slice buf 0 (- 1) = butlast buf"
  by (auto simp: slice_def adjustOffset_def Let_def butlast_conv_take nat_diff_distrib')

lemma slice_3_to_len_minus_4:
  "slice buf 3 (int (length buf) - 4) = drop 3 (take (length buf - 4) buf)"
proof (cases "7 < length buf")
  case True
  then have "nat (int (length buf) - 4 - 3) = length buf - 4 - 3" by linarith
  with True show ?thesis
    by (simp add: slice_def adjustOffset_def Let_def drop_take)
next
  case False
  then have "drop 3 (take (length buf - 4) buf) = []" by simp
  moreover from False have "slice buf 3 (int (length buf) - 4) = []"
    by (auto simp: slice_def adjustOffset_def Let_def)
  ultimately show ?thesis by simp
qed

lemma parseContent_ok_iff:
  "(\<exists>kv. parseContent buffer = Inr kv) \<longleftrightarrow>
   exec_attr name_lit (exec_arg (parse_headers (part_head buffer) (units ''content-disposition''))) \<noteq> None"
  by (auto simp: parseContent_def Let_def split: option.splits)

text \<open>
  Claim C3, as the code has it. For every raw part buffer that contains no CR LF CR LF,
  the part splitter does not fail: the index is \<open>-1\<close>, the header block is the text
  of the buffer without its last byte, the body is the bytes from offset 3 to four bytes before the
  end, and \<open>parseContent\<close> goes on with them; it reports a key and a value exactly
  when the name pattern matches in the headers read from that header block.
\<close>

theorem no_separator_no_error:
  assumes "\<not> sublist DOUBLE_CRLF buffer"
  shows "part_head buffer = toString (butlast buffer) \<and>
         part_body buffer = drop 3 (take (length buffer - 4) buffer) \<and>
         ((\<exists>kv. parseContent buffer = Inr kv) \<longleftrightarrow>
          exec_attr name_lit (exec_arg (parse_headers (toString (butlast buffer)) (units ''content-disposition''))) \<noteq> None)"
proof -
  from assms have i: "indexOf buffer DOUBLE_CRLF 0 = - 1" by (rule indexOf_none) simp
  have h: "part_head buffer = toString (butlast buffer)"
    by (simp add: part_head_def i slice_to_minus_one)
  have b: "part_body buffer = drop 3 (take (length buffer - 4) buffer)"
    using slice_3_to_len_minus_4 [of buffer] by (simp add: part_body_def i)
  from h b parseContent_ok_iff [of buffer] show ?thesis by simp
qed

theorem no_separator_no_error_witness:
  \<open>\<not> sublist DOUBLE_CRLF (''Content-Disposition: form-data; name="a"'' @ CRLF @ ''value'' @ CRLF @ ''--'') \<and>
   part_head (''Content-Disposition: form-data; name="a"'' @ CRLF @ ''value'' @ CRLF @ ''--'') =
     toString (''Content-Disposition: form-data; name="a"'' @ CRLF @ ''value'' @ CRLF @ ''-'') \<and>
   part_body (''Content-Disposition: form-data; name="a"'' @ CRLF @ ''value'' @ CRLF @ ''--'') =
     ''tent-Disposition: form-data; name="a"'' @ CRLF @ ''value'' \<and>
   (\<exists>kv. parseContent (''Content-Disposition: form-data; name="a"'' @ CRLF @ ''value'' @ CRLF @ ''--'') = Inr kv)\<close>
proof -
  have a: \<open>\<not> sublist DOUBLE_CRLF (''Content-Disposition: form-data; name="a"'' @ CRLF @ ''value'' @ CRLF @ ''--'')\<close>
    by code_simp
  have n: \<open>exec_attr name_lit (exec_arg (parse_headers
      (toString (butlast (''Content-Disposition: form-data; name="a"'' @ CRLF @ ''value'' @ CRLF @ ''--'')))
      (units ''content-disposition''))) \<noteq> None\<close>
    by code_simp
  have bl: \<open>butlast (''Content-Disposition: form-data; name="a"'' @ CRLF @ ''value'' @ CRLF @ ''--'') =
     ''Content-Disposition: form-data; name="a"'' @ CRLF @ ''value'' @ CRLF @ ''-''\<close>
    by code_simp
  have dt: \<open>drop 3 (take (length (''Content-Disposition: form-data; name="a"'' @ CRLF @ ''value'' @ CRLF @ ''--'') - 4)
       (''Content-Disposition: form-data; name="a"'' @ CRLF @ ''value'' @ CRLF @ ''--'')) =
     ''tent-Disposition: form-data; name="a"'' @ CRLF @ ''value''\<close>
    by code_simp
  from no_separator_no_error [OF a] n show ?thesis unfolding bl dt using a by blast
qed

text \<open>
  The claim as stated fails on a part whose header line and value are separated by one
  CR LF only: \<open>parseContent\<close> reports the field \<open>a\<close>, with a value cut out of the
  header line.
\<close>

theorem no_separator_no_error_counterexample:
  \<open>\<not> sublist DOUBLE_CRLF (''Content-Disposition: form-data; name="a"'' @ CRLF @ ''value'' @ CRLF @ ''--'') \<and>
   parseContent (''Content-Disposition: form-data; name="a"'' @ CRLF @ ''value'' @ CRLF @ ''--'') =
     Inr (units ''a'', Field (toString (''tent-Disposition: form-data; name="a"'' @ CRLF @ ''value'')))\<close>
  by code_simp

section \<open>The tail of the body\<close>







section \<open>Header lines\<close>

lemma colon_space: "units '': '' = [58, 32]"
  by code_simp

lemma split_str_none:
  assumes "sep \<noteq> []" and "\<not> sublist sep s"
  shows "split_str s sep = [s]"
proof -
  from assms(2) have "indexOf_from s sep 0 = - 1" by (rule indexOf_from_none)
  with assms(1) show ?thesis by (subst split_str.simps) simp
qed

lemma split_str_found:
  assumes "sep \<noteq> []" and "indexOf_from (a @ sep @ rest) sep 0 = int (length a)"
  shows "split_str (a @ sep @ rest) sep = a # split_str rest sep"
  using assms by (subst split_str.simps) simp

lemma colon_space_first:
  assumes "\<not> sublist (units '': '') a"
  shows "indexOf_from (a @ (units '': '') @ rest) (units '': '') 0 = int (length a)"
proof -
  have "\<not> prefix (units '': '') (drop j (a @ (units '': '') @ rest))" if j: "j < length a" for j
  proof
    assume p: "prefix (units '': '') (drop j (a @ (units '': '') @ rest))"
    from j have "drop j (a @ (units '': '') @ rest) = drop j a @ (units '': '') @ rest" by simp
    with p have p': "prefix (units '': '') (drop j a @ (units '': '') @ rest)" by (simp only:)
    from j obtain c cs where c: "drop j a = c # cs" by (cases "drop j a") auto
    show False
    proof (cases cs)
      case Nil
      from p' have "prefix (units '': '') ([c] @ (units '': '') @ rest)" unfolding c Nil .
      then show False by (simp add: colon_space)
    next
      case (Cons c' cs')
      from p' have "prefix (units '': '') ((c # c' # cs') @ (units '': '') @ rest)" unfolding c Cons .
      then have "prefix (units '': '') (c # c' # cs')" by (simp add: colon_space)
      then have "prefix (units '': '') (drop j a)" unfolding c Cons .
      then have "sublist (units '': '') a" by (rule prefix_drop_sublist)
      with assms show False by simp
    qed
  qed
  then have "length a \<le> length (a @ (units '': '') @ rest) \<and>
             prefix (units '': '') (drop (length a) (a @ (units '': '') @ rest)) \<and>
             (\<forall>j<length a. \<not> prefix (units '': '') (drop j (a @ (units '': '') @ rest)))"
    by simp
  then have "indexOf_from (a @ (units '': '') @ rest) (units '': '') 0 = int (0 + length a)"
    unfolding indexOf_from_eq_iff .
  then show ?thesis by simp
qed

lemma split_colon_space:
  "\<not> sublist (units '': '') a \<Longrightarrow> split_str (a @ (units '': '') @ rest) (units '': '') = a # split_str rest (units '': '')"
  by (rule split_str_found [OF _ colon_space_first]) (simp_all add: colon_space)

lemma split_str_not_Nil: "sep \<noteq> [] \<Longrightarrow> split_str s sep \<noteq> []"
  by (subst split_str.simps) simp

text \<open>
  Claim C4, as the code has it. A header line of any shape is accepted; parsing the
  headers has no failure. A line without \<open>: \<close> stores \<open>undefined\<close> under the
  lower-cased line. A line with one \<open>: \<close> stores the text after it under the
  lower-cased text before it. A line with more than one \<open>: \<close> stores the text
  between the first and the second under the lower-cased text before the first, and
  what follows the second is dropped.
\<close>

theorem header_line_any_shape:
  "(\<not> sublist (units '': '') line \<longrightarrow> header_line line headers = headers(toLowerCase line := None)) \<and>
   (\<not> sublist (units '': '') k \<longrightarrow> \<not> sublist (units '': '') v \<longrightarrow>
      header_line (k @ (units '': '') @ v) headers = headers(toLowerCase k \<mapsto> v)) \<and>
   (\<not> sublist (units '': '') k \<longrightarrow> \<not> sublist (units '': '') v \<longrightarrow>
      header_line (k @ (units '': '') @ v @ (units '': '') @ rest) headers = headers(toLowerCase k \<mapsto> v))"
proof (intro conjI impI)
  assume "\<not> sublist (units '': '') line"
  then have "split_str line (units '': '') = [line]" by (intro split_str_none) (simp_all add: colon_space)
  then show "header_line line headers = headers(toLowerCase line := None)"
    by (simp add: header_line_def nth_opt_def)
next
  assume k: "\<not> sublist (units '': '') k" and v: "\<not> sublist (units '': '') v"
  from v have "split_str v (units '': '') = [v]" by (intro split_str_none) (simp_all add: colon_space)
  with split_colon_space [OF k, of v] have "split_str (k @ (units '': '') @ v) (units '': '') = [k, v]" by simp
  then show "header_line (k @ (units '': '') @ v) headers = headers(toLowerCase k \<mapsto> v)"
    by (simp add: header_line_def nth_opt_def)
next
  assume k: "\<not> sublist (units '': '') k" and v: "\<not> sublist (units '': '') v"
  from split_colon_space [OF k, of "v @ (units '': '') @ rest"] split_colon_space [OF v, of rest]
  have "split_str (k @ (units '': '') @ v @ (units '': '') @ rest) (units '': '') = k # v # split_str rest (units '': '')"
    by simp
  then show "header_line (k @ (units '': '') @ v @ (units '': '') @ rest) headers = headers(toLowerCase k \<mapsto> v)"
    by (simp add: header_line_def nth_opt_def)
qed

theorem header_line_any_shape_witness:
  \<open>\<not> sublist (units '': '') (units ''garbage'') \<and>
   header_line (units ''garbage'') Map.empty = Map.empty((units ''garbage'') := None) \<and>
   \<not> sublist (units '': '') (units ''Content-Type'') \<and> \<not> sublist (units '': '') (units ''image/jpeg'') \<and>
   header_line ((units ''Content-Type'') @ (units '': '') @ (units ''image/jpeg'')) Map.empty = [(units ''content-type'') \<mapsto> (units ''image/jpeg'')] \<and>
   \<not> sublist (units '': '') (units ''X'') \<and> \<not> sublist (units '': '') (units ''y'') \<and>
   header_line ((units ''X'') @ (units '': '') @ (units ''y'') @ (units '': '') @ (units ''z'')) Map.empty = [(units ''x'') \<mapsto> (units ''y'')]\<close>
proof -
  have a: \<open>\<not> sublist (units '': '') (units ''garbage'')\<close> \<open>\<not> sublist (units '': '') (units ''Content-Type'')\<close>
    \<open>\<not> sublist (units '': '') (units ''image/jpeg'')\<close> \<open>\<not> sublist (units '': '') (units ''X'')\<close> \<open>\<not> sublist (units '': '') (units ''y'')\<close>
    by code_simp+
  have l: \<open>toLowerCase (units ''garbage'') = (units ''garbage'')\<close> \<open>toLowerCase (units ''Content-Type'') = (units ''content-type'')\<close>
    \<open>toLowerCase (units ''X'') = (units ''x'')\<close>
    by code_simp+
  from header_line_any_shape [of "units ''garbage''" Map.empty "units ''Content-Type''" "units ''image/jpeg''"]
       header_line_any_shape [of _ Map.empty "units ''X''" "units ''y''" "units ''z''"] a
  show ?thesis unfolding l by blast
qed

text \<open>
  The claim as stated fails on a part whose header block has a line without \<open>: \<close>
  and a line with two of them: \<open>parseContent\<close> reports the field all the same.
\<close>

theorem header_line_any_shape_counterexample:
  \<open>parseContent (CRLF @ ''Content-Disposition: form-data; name="a"'' @ CRLF @ ''garbage'' @ CRLF @
       ''X: y: z'' @ DOUBLE_CRLF @ ''v'' @ CRLF @ ''--'') = Inr (units ''a'', Field (units ''v'')) \<and>
   split_str (part_head (CRLF @ ''Content-Disposition: form-data; name="a"'' @ CRLF @ ''garbage'' @ CRLF @
       ''X: y: z'' @ DOUBLE_CRLF @ ''v'' @ CRLF @ ''--'')) (toString CRLF) =
     [units '''', units ''Content-Disposition: form-data; name="a"'', units ''garbage'',
      units ''X: y: z'']\<close>
  by code_simp

section \<open>Fields and files\<close>

lemma exec_attr_here:
  assumes "run \<noteq> []" and "\<forall>c\<in>set run. attr_char c"
  shows "exec_attr lit (lit @ run @ 0x22 # post) = Some run"
proof -
  from assms(1) obtain c cs where s: "lit @ run @ 0x22 # post = c # cs"
    by (cases "lit @ run @ 0x22 # post") auto
  have q: "\<not> attr_char (0x22)" by (simp add: attr_char_def)
  have tw: "takeWhile attr_char (run @ 0x22 # post) = run"
    using assms(2) q by (simp add: takeWhile_append2)
  have dw: "dropWhile attr_char (run @ 0x22 # post) = 0x22 # post"
    using assms(2) q by (simp add: dropWhile_append2)
  have p: "prefix lit (c # cs)" unfolding s [symmetric] by simp
  have d: "drop (length lit) (c # cs) = run @ 0x22 # post" unfolding s [symmetric] by simp
  have "exec_attr lit (c # cs) = Some run"
    by (simp add: p d tw dw assms(1))
  then show ?thesis unfolding s .
qed

lemma exec_attr_complete:
  assumes "run \<noteq> []" and "\<forall>c\<in>set run. attr_char c"
  shows "exec_attr lit (pre @ lit @ run @ 0x22 # post) \<noteq> None"
proof (induction pre)
  case Nil
  from exec_attr_here [OF assms, of lit post] show ?case by simp
next
  case (Cons x pre)
  then show ?case by (simp del: append_assoc)
qed

lemma exec_attr_sound:
  "exec_attr lit s = Some run \<Longrightarrow>
   \<exists>pre post. s = pre @ lit @ run @ 0x22 # post \<and> run \<noteq> [] \<and> (\<forall>c\<in>set run. attr_char c)"
proof (induction s)
  case Nil
  then show ?case by simp
next
  case (Cons c cs)
  let ?rest = "drop (length lit) (c # cs)"
  show ?case
  proof (cases "prefix lit (c # cs) \<and> takeWhile attr_char ?rest \<noteq> [] \<and>
                take 1 (dropWhile attr_char ?rest) = [0x22]")
    case True
    with Cons.prems have run: "run = takeWhile attr_char ?rest" by simp
    from True obtain post where dw: "dropWhile attr_char ?rest = 0x22 # post"
      by (cases "dropWhile attr_char ?rest") auto
    from True have "c # cs = lit @ ?rest" by (auto simp: prefix_def)
    also have "?rest = takeWhile attr_char ?rest @ dropWhile attr_char ?rest" by simp
    finally have "c # cs = [] @ lit @ run @ 0x22 # post" unfolding run dw by simp
    moreover from True have "run \<noteq> []" by (simp add: run)
    moreover have "\<forall>c\<in>set run. attr_char c" unfolding run by (auto dest: set_takeWhileD)
    ultimately show ?thesis by blast
  next
    case False
    with Cons.prems have "exec_attr lit cs = Some run" by auto
    from Cons.IH [OF this] obtain pre post where
      "cs = pre @ lit @ run @ 0x22 # post" "run \<noteq> []" "\<forall>c\<in>set run. attr_char c" by blast
    then have "c # cs = (c # pre) @ lit @ run @ 0x22 # post \<and> run \<noteq> [] \<and> (\<forall>c\<in>set run. attr_char c)"
      by simp
    then show ?thesis by blast
  qed
qed

lemma exec_attr_matches_iff:
  "exec_attr lit s \<noteq> None \<longleftrightarrow>
   (\<exists>pre run post. s = pre @ lit @ run @ 0x22 # post \<and> run \<noteq> [] \<and> (\<forall>c\<in>set run. attr_char c))"
proof
  assume "exec_attr lit s \<noteq> None"
  then obtain run where "exec_attr lit s = Some run" by auto
  from exec_attr_sound [OF this] show "\<exists>pre run post. s = pre @ lit @ run @ 0x22 # post \<and>
      run \<noteq> [] \<and> (\<forall>c\<in>set run. attr_char c)" by blast
next
  assume "\<exists>pre run post. s = pre @ lit @ run @ 0x22 # post \<and> run \<noteq> [] \<and> (\<forall>c\<in>set run. attr_char c)"
  then show "exec_attr lit s \<noteq> None" using exec_attr_complete by blast
qed

text \<open>
  Claim C6, as the code has it. For every part that \<open>parseContent\<close> reports, the value
  is a file exactly when the \<open>Content-Disposition\<close> value (the text \<open>undefined\<close> when
  the header is absent) contains \<open>filename="\<close>, a non-empty run of characters other than
  \<open>;\<close> and \<open>"\<close>, and a closing \<open>"\<close>; the data of a file is the body bytes as they
  are, and the text of a field is the body bytes decoded as UTF-8, which are other
  values: two bytes that are not UTF-8 are two bytes in a file and two replacement
  characters in a field. An empty \<open>filename=""\<close> does not match, and the part is a
  field.
\<close>

theorem file_iff_filename_matches:
  assumes "parseContent buffer = Inr (name, v)"
  shows "((\<exists>f ct d. v = File f ct d) \<longleftrightarrow>
          (\<exists>pre f post.
             exec_arg (parse_headers (part_head buffer) (units ''content-disposition'')) =
               pre @ filename_lit @ f @ 0x22 # post \<and>
             f \<noteq> [] \<and> (\<forall>c\<in>set f. attr_char c))) \<and>
         (\<forall>f ct d. v = File f ct d \<longrightarrow> d = part_body buffer) \<and>
         (\<forall>t. v = Field t \<longrightarrow> t = toString (part_body buffer))"
proof -
  let ?cd = "exec_arg (parse_headers (part_head buffer) (units ''content-disposition''))"
  show ?thesis
  proof (cases "exec_attr filename_lit ?cd")
    case None
    with assms have "v = Field (toString (part_body buffer))"
      by (auto simp: parseContent_def Let_def split: option.splits)
    moreover from None exec_attr_matches_iff [of filename_lit ?cd]
    have "\<not> (\<exists>pre f post. ?cd = pre @ filename_lit @ f @ 0x22 # post \<and>
             f \<noteq> [] \<and> (\<forall>c\<in>set f. attr_char c))" by simp
    ultimately show ?thesis by simp
  next
    case (Some f)
    with assms obtain ct where "v = File f ct (part_body buffer)"
      by (auto simp: parseContent_def Let_def split: option.splits)
    moreover from Some exec_attr_matches_iff [of filename_lit ?cd]
    have "\<exists>pre f post. ?cd = pre @ filename_lit @ f @ 0x22 # post \<and>
             f \<noteq> [] \<and> (\<forall>c\<in>set f. attr_char c)" by simp
    ultimately show ?thesis by simp
  qed
qed

theorem file_iff_filename_matches_witness:
  \<open>parseContent (CRLF @ ''Content-Disposition: form-data; name="image"; filename="ada.jpg"'' @ CRLF @
      ''Content-Type: image/jpeg'' @ DOUBLE_CRLF @ [CHR 0xFF, CHR 0xD8, CHR 0xFF, CHR 0xE0] @ CRLF @ ''--'') =
     Inr (units ''image'', File (units ''ada.jpg'') (units ''image/jpeg'')
            [CHR 0xFF, CHR 0xD8, CHR 0xFF, CHR 0xE0]) \<and>
   (\<exists>pre f post.
      exec_arg (parse_headers (part_head (CRLF @ ''Content-Disposition: form-data; name="image"; filename="ada.jpg"'' @ CRLF @
      ''Content-Type: image/jpeg'' @ DOUBLE_CRLF @ [CHR 0xFF, CHR 0xD8, CHR 0xFF, CHR 0xE0] @ CRLF @ ''--'')) (units ''content-disposition'')) =
        pre @ filename_lit @ f @ 0x22 # post \<and>
      f \<noteq> [] \<and> (\<forall>c\<in>set f. attr_char c)) \<and>
   part_body (CRLF @ ''Content-Disposition: form-data; name="image"; filename="ada.jpg"'' @ CRLF @
      ''Content-Type: image/jpeg'' @ DOUBLE_CRLF @ [CHR 0xFF, CHR 0xD8, CHR 0xFF, CHR 0xE0] @ CRLF @ ''--'') = [CHR 0xFF, CHR 0xD8, CHR 0xFF, CHR 0xE0] \<and>
   parseContent (CRLF @ ''Content-Disposition: form-data; name="f"'' @ DOUBLE_CRLF @
      [CHR 0xFF, CHR 0xD8] @ CRLF @ ''--'') = Inr (units ''f'', Field [0xFFFD, 0xFFFD]) \<and>
   part_body (CRLF @ ''Content-Disposition: form-data; name="f"'' @ DOUBLE_CRLF @
      [CHR 0xFF, CHR 0xD8] @ CRLF @ ''--'') = [CHR 0xFF, CHR 0xD8] \<and>
   toString (part_body (CRLF @ ''Content-Disposition: form-data; name="f"'' @ DOUBLE_CRLF @
      [CHR 0xFF, CHR 0xD8] @ CRLF @ ''--'')) = [0xFFFD, 0xFFFD]\<close>
proof -
  have a: \<open>parseContent (CRLF @ ''Content-Disposition: form-data; name="image"; filename="ada.jpg"'' @ CRLF @
      ''Content-Type: image/jpeg'' @ DOUBLE_CRLF @ [CHR 0xFF, CHR 0xD8, CHR 0xFF, CHR 0xE0] @ CRLF @ ''--'') =
     Inr (units ''image'', File (units ''ada.jpg'') (units ''image/jpeg'')
            [CHR 0xFF, CHR 0xD8, CHR 0xFF, CHR 0xE0])\<close>
    by code_simp
  have a': \<open>parseContent (CRLF @ ''Content-Disposition: form-data; name="f"'' @ DOUBLE_CRLF @
      [CHR 0xFF, CHR 0xD8] @ CRLF @ ''--'') = Inr (units ''f'', Field [0xFFFD, 0xFFFD])\<close>
    by code_simp
  have pb: \<open>part_body (CRLF @ ''Content-Disposition: form-data; name="f"'' @ DOUBLE_CRLF @
      [CHR 0xFF, CHR 0xD8] @ CRLF @ ''--'') = [CHR 0xFF, CHR 0xD8]\<close>
    by code_simp
  note th = file_iff_filename_matches [OF a]
  note th' = file_iff_filename_matches [OF a']
  have ex: \<open>\<exists>f ct d. File (units ''ada.jpg'') (units ''image/jpeg'')
      [CHR 0xFF, CHR 0xD8, CHR 0xFF, CHR 0xE0] = File f ct d\<close>
    by blast
  from th [THEN conjunct1, THEN iffD1, OF ex] have b: \<open>\<exists>pre f post.
      exec_arg (parse_headers (part_head (CRLF @ ''Content-Disposition: form-data; name="image"; filename="ada.jpg"'' @ CRLF @
      ''Content-Type: image/jpeg'' @ DOUBLE_CRLF @ [CHR 0xFF, CHR 0xD8, CHR 0xFF, CHR 0xE0] @ CRLF @ ''--'')) (units ''content-disposition'')) =
        pre @ filename_lit @ f @ 0x22 # post \<and>
      f \<noteq> [] \<and> (\<forall>c\<in>set f. attr_char c)\<close> .
  from th [THEN conjunct2, THEN conjunct1, rule_format, OF refl]
  have c: \<open>part_body (CRLF @ ''Content-Disposition: form-data; name="image"; filename="ada.jpg"'' @ CRLF @
      ''Content-Type: image/jpeg'' @ DOUBLE_CRLF @ [CHR 0xFF, CHR 0xD8, CHR 0xFF, CHR 0xE0] @ CRLF @ ''--'') = [CHR 0xFF, CHR 0xD8, CHR 0xFF, CHR 0xE0]\<close>
    by (rule sym)
  from th' [THEN conjunct2, THEN conjunct2, rule_format, OF refl]
  have d: \<open>toString (part_body (CRLF @ ''Content-Disposition: form-data; name="f"'' @ DOUBLE_CRLF @
      [CHR 0xFF, CHR 0xD8] @ CRLF @ ''--'')) = [0xFFFD, 0xFFFD]\<close>
    by (rule sym)
  from a b c a' pb d show ?thesis by (intro conjI)
qed

text \<open>
  The claim as stated fails on a part whose \<open>filename\<close> attribute is present and empty:
  the value is a field.
\<close>

theorem file_iff_filename_matches_counterexample:
  \<open>parseContent (CRLF @ ''Content-Disposition: form-data; name="f"; filename=""'' @ DOUBLE_CRLF @
      ''DATA'' @ CRLF @ ''--'') = Inr (units ''f'', Field (units ''DATA''))\<close>
  by code_simp

section \<open>A part without a name\<close>

text \<open>
  Claim C5 says that a part whose \<open>Content-Disposition\<close> has no \<open>name\<close> attribute
  fails with the missing-name error, also when a \<open>filename\<close> attribute is there. The
  code does not: the pattern \<open>name="\<close> of line 160 also matches the end of
  \<open>filename="\<close>, so for the part below, which has a \<open>filename\<close> and no \<open>name\<close>,
  \<open>parseContent\<close> reports a file under the key \<open>a.jpg\<close>, its file name.
\<close>

theorem missing_name_with_filename:
  \<open>parseContent (CRLF @ ''Content-Disposition: form-data; filename="a.jpg"'' @ DOUBLE_CRLF @
      ''DATA'' @ CRLF @ ''--'') =
   Inr (units ''a.jpg'', File (units ''a.jpg'') (units ''application/octet-stream'') ''DATA'')\<close>
  by code_simp

section \<open>A decode with a part that fails\<close>

text \<open>
  Claim C1 says that when a part fails to parse, the decode fails with the first error
  and the caller sees no form data built from the other parts. The code does not: for
  the buffer below, whose first part is the field \<open>a\<close> and whose second part has no
  name, \<open>processBody\<close> calls the callback with the error, goes on, and then calls it
  again with no error and the form data that holds the first part.
\<close>

theorem processBody_goes_on_after_error:
  \<open>processBody
     (''--XYZ'' @ CRLF @ ''Content-Disposition: form-data; name="a"'' @ DOUBLE_CRLF @ ''1'' @ CRLF @
      ''--XYZ'' @ CRLF @ ''Content-Disposition: form-data'' @ DOUBLE_CRLF @ ''2'' @ CRLF @
      ''--XYZ--'' @ CRLF) (units ''XYZ'') =
   [Inl (units ''No name in multipart content header''),
    Inr \<lparr>props = [units ''a'' \<mapsto> Field (units ''1'')], proto = None\<rparr>]\<close>
proof -
  have p: \<open>splitContentParts
     (''--XYZ'' @ CRLF @ ''Content-Disposition: form-data; name="a"'' @ DOUBLE_CRLF @ ''1'' @ CRLF @
      ''--XYZ'' @ CRLF @ ''Content-Disposition: form-data'' @ DOUBLE_CRLF @ ''2'' @ CRLF @
      ''--XYZ--'' @ CRLF) (units ''XYZ'') =
     [CRLF @ ''Content-Disposition: form-data; name="a"'' @ DOUBLE_CRLF @ ''1'' @ CRLF @ ''--'',
      CRLF @ ''Content-Disposition: form-data'' @ DOUBLE_CRLF @ ''2'' @ CRLF @ ''--'']\<close>
    by code_simp
  have q1: \<open>parseContent (CRLF @ ''Content-Disposition: form-data; name="a"'' @ DOUBLE_CRLF @ ''1'' @ CRLF @ ''--'') =
     Inr (units ''a'', Field (units ''1''))\<close>
    by code_simp
  have q2: \<open>parseContent (CRLF @ ''Content-Disposition: form-data'' @ DOUBLE_CRLF @ ''2'' @ CRLF @ ''--'') =
     Inl (units ''No name in multipart content header'')\<close>
    by code_simp
  show ?thesis
    unfolding processBody_def p fold.simps comp_apply id_apply process_part_def q1 q2
    by (simp add: set_prop_def empty_formData_def units_def)
qed

end
